theory Spec2Isabelle
  imports Main "HOL-Library.Multiset" "HOL-Library.Sublist"
begin

section \<open>The logger package (logger/log.go)\<close>

subsection \<open>Values, levels and the zap collaborator\<close>

text \<open>
  \<open>zapcore.Level\<close> is an enumeration from \<open>DebugLevel\<close> up to \<open>FatalLevel\<close>.
\<close>

datatype Level =
  DebugLevel | InfoLevel | WarnLevel | ErrorLevel | DPanicLevel | PanicLevel | FatalLevel

text \<open>
  A non-nil value held in a Go \<open>interface{}\<close>. A nil interface is \<open>None\<close> of
  \<open>go_value option\<close> wherever the code compares against \<open>nil\<close>.
\<close>

datatype go_value =
  VString string | VInt int | VBool bool | VError string | VRuntimeError string

definition nilDeref :: go_value where
  "nilDeref = VRuntimeError ''invalid memory address or nil pointer dereference''"

text \<open>How a call ends: it returns, it panics with a value, or it exits the process.\<close>

datatype Outcome = Returns | Panics go_value | Exits int

type_synonym Field = "string \<times> go_value"

definition zap_Any :: "string \<Rightarrow> go_value \<Rightarrow> Field" where
  "zap_Any k v = (k, v)"

text \<open>The core that \<open>initCore\<close> builds: the lumberjack writer's settings and the level.\<close>

record Core =
  lj_Filename :: string
  lj_MaxSize :: int
  lj_MaxAge :: int
  lj_LocalTime :: bool
  lj_Compress :: bool
  core_level :: Level

record Logger =
  zcore :: "Core option"
  addCaller :: bool
  callerSkip :: int
  development :: bool

datatype ZapOption = AddCaller | AddCallerSkip int | Development

fun applyOption :: "Logger \<Rightarrow> ZapOption \<Rightarrow> Logger" where
  "applyOption lg AddCaller = lg\<lparr>addCaller := True\<rparr>"
| "applyOption lg (AddCallerSkip n) = lg\<lparr>callerSkip := callerSkip lg + n\<rparr>"
| "applyOption lg Development = lg\<lparr>development := True\<rparr>"

definition NewNop :: Logger where
  "NewNop = \<lparr>zcore = None, addCaller = False, callerSkip = 0, development = False\<rparr>"

text \<open>
  Modelled from the spec: the constructor of the logging collaborator (zap), whose code
  is not among the sources. By zap's contract \<open>zap.New\<close> on a nil core gives the no-op
  logger, otherwise a logger on that core with the options applied in order; a logger
  is in development mode only when the \<open>Development\<close> option is passed.
\<close>

definition zap_New :: "Core option \<Rightarrow> ZapOption list \<Rightarrow> Logger" where
  "zap_New c opts =
     (case c of
        None \<Rightarrow> NewNop
      | Some k \<Rightarrow> foldl applyOption
                   \<lparr>zcore = Some k, addCaller = False, callerSkip = 0, development = False\<rparr> opts)"

text \<open>One call received by the logging collaborator: level, message, structured fields.\<close>

record Entry =
  entry_level :: Level
  entry_msg :: string
  entry_fields :: "Field list"

text \<open>
  Modelled from the spec: the logging collaborator, whose code (zap) is not among the
  sources, receives \<open>(level, message, structured-fields)\<close> calls. How a call ends is
  zap's contract, which the comments of log.go on \<open>DPanic\<close>, \<open>Panic\<close> and \<open>Fatal\<close>
  repeat: after it has taken the call, the logger panics with the message at
  \<open>PanicLevel\<close>, exits the process with status 1 at \<open>FatalLevel\<close>, panics at
  \<open>DPanicLevel\<close> only in development mode, and returns otherwise.
\<close>

definition zap_log :: "Logger \<Rightarrow> Level \<Rightarrow> string \<Rightarrow> Field list \<Rightarrow> Entry list \<times> Outcome" where
  "zap_log lg lvl msg fs =
     ([\<lparr>entry_level = lvl, entry_msg = msg, entry_fields = fs\<rparr>],
      (case lvl of
         PanicLevel \<Rightarrow> Panics (VString msg)
       | FatalLevel \<Rightarrow> Exits 1
       | DPanicLevel \<Rightarrow> if development lg then Panics (VString msg) else Returns
       | _ \<Rightarrow> Returns))"

text \<open>
  A method call through the \<open>*zap.Logger\<close> handle: a nil handle is dereferenced inside
  the method, which is a runtime panic, and the collaborator receives nothing.
\<close>

definition call_Logger ::
  "Logger option \<Rightarrow> Level \<Rightarrow> string \<Rightarrow> Field list \<Rightarrow> Entry list \<times> Outcome" where
  "call_Logger p lvl msg fs =
     (case p of None \<Rightarrow> ([], Panics nilDeref) | Some lg \<Rightarrow> zap_log lg lvl msg fs)"

subsection \<open>Package-level variables\<close>

record pkg =
  fLogger :: "Logger option"
  core :: "Core option"
  logMaxAge :: int
  logMaxSize :: int
  logCompress :: bool
  logTraceFileLine :: bool
  logLevel :: string
  logFileName :: string
  logDir :: string

definition init_pkg :: pkg where
  "init_pkg =
     \<lparr>fLogger = None, core = None, logMaxAge = 7, logMaxSize = 512, logCompress = False,
      logTraceFileLine = True, logLevel = ''debug'', logFileName = ''go-zap.log'',
      logDir = ''''\<rparr>"

text \<open>
  What the package asks of the operating system: \<open>os.TempDir\<close>, \<open>filepath.Join\<close>,
  whether \<open>os.Stat\<close> finds a path, and whether \<open>os.MkdirAll\<close> succeeds on it.
\<close>

record os =
  TempDir :: string
  Join :: "string \<Rightarrow> string \<Rightarrow> string"
  StatOk :: "string \<Rightarrow> bool"
  MkdirAllOk :: "string \<Rightarrow> bool"

definition levelMap :: "string \<rightharpoonup> Level" where
  "levelMap =
     map_of [(''debug'', DebugLevel), (''info'', InfoLevel), (''warn'', WarnLevel),
             (''error'', ErrorLevel), (''dpanic'', DPanicLevel), (''panic'', PanicLevel),
             (''fatal'', FatalLevel)]"

subsection \<open>Configuration\<close>

definition MaxAge :: "int \<Rightarrow> pkg \<Rightarrow> pkg" where
  "MaxAge n s = s\<lparr>logMaxAge := n\<rparr>"

definition MaxSize :: "int \<Rightarrow> pkg \<Rightarrow> pkg" where
  "MaxSize n s = s\<lparr>logMaxSize := n\<rparr>"

definition Compress :: "bool \<Rightarrow> pkg \<Rightarrow> pkg" where
  "Compress b s = s\<lparr>logCompress := b\<rparr>"

definition TraceFileLine :: "bool \<Rightarrow> pkg \<Rightarrow> pkg" where
  "TraceFileLine b s = s\<lparr>logTraceFileLine := b\<rparr>"

definition LogLevel :: "string \<Rightarrow> pkg \<Rightarrow> pkg" where
  "LogLevel lvl s = s\<lparr>logLevel := lvl\<rparr>"

definition SetLogFile :: "string \<Rightarrow> pkg \<Rightarrow> pkg" where
  "SetLogFile name s = (if name = '''' then s else s\<lparr>logFileName := name\<rparr>)"

definition getLevel :: "string \<Rightarrow> Level" where
  "getLevel lvl = (case levelMap lvl of Some level \<Rightarrow> level | None \<Rightarrow> InfoLevel)"

definition checkPathExist :: "os \<Rightarrow> string \<Rightarrow> bool" where
  "checkPathExist e path = StatOk e path"

definition SetLogDir :: "os \<Rightarrow> string \<Rightarrow> pkg \<Rightarrow> pkg" where
  "SetLogDir e dir s =
     (if dir = '''' then s\<lparr>logDir := TempDir e\<rparr>
      else if \<not> checkPathExist e dir \<and> \<not> MkdirAllOk e dir then s
      else s\<lparr>logDir := dir\<rparr>)"

definition initCore :: "os \<Rightarrow> pkg \<Rightarrow> pkg" where
  "initCore e s =
     (let s1 = (if logDir s = '''' then s\<lparr>logFileName := Join e (TempDir e) (logFileName s)\<rparr>
                else s\<lparr>logFileName := Join e (logDir s) (logFileName s)\<rparr>);
          level = getLevel (logLevel s1)
      in s1\<lparr>core := Some \<lparr>lj_Filename = logFileName s1, lj_MaxSize = logMaxSize s1,
                            lj_MaxAge = logMaxAge s1, lj_LocalTime = True,
                            lj_Compress = logCompress s1, core_level = level\<rparr>\<rparr>)"

definition InitLogger :: "os \<Rightarrow> int list \<Rightarrow> pkg \<Rightarrow> pkg" where
  "InitLogger e skip s =
     (let s1 = (if core s = None then initCore e s else s)
      in case skip of
           k # _ \<Rightarrow>
             if logTraceFileLine s1 \<and> k > 0
             then s1\<lparr>fLogger := Some (zap_New (core s1) [AddCaller, AddCallerSkip k])\<rparr>
             else s1\<lparr>fLogger := Some (zap_New (core s1) [])\<rparr>
         | [] \<Rightarrow> s1\<lparr>fLogger := Some (zap_New (core s1) [])\<rparr>)"

text \<open>\<open>LogSugar\<close> returns a fresh logger and leaves \<open>fLogger\<close> alone.\<close>

definition LogSugar :: "os \<Rightarrow> int list \<Rightarrow> pkg \<Rightarrow> Logger \<times> pkg" where
  "LogSugar e skip s =
     (let s1 = (if core s = None then initCore e s else s)
      in case skip of
           k # _ \<Rightarrow>
             if logTraceFileLine s1 \<and> k > 0
             then (zap_New (core s1) [AddCaller, AddCallerSkip k], s1)
             else (zap_New (core s1) [], s1)
         | [] \<Rightarrow> (zap_New (core s1) [], s1))"

subsection \<open>Log calls\<close>

text \<open>
  The \<open>map[string]interface{}\<close> argument is an association list with distinct keys. Go
  ranges over a map in no fixed order, so only the set of the fields produced matters.
\<close>

definition parseFields :: "(string \<times> go_value) list \<Rightarrow> Field list" where
  "parseFields options =
     (let fLen = length options
      in if fLen = 0 then [] else map (\<lambda>(k, v). zap_Any k v) options)"




definition DPanic :: "string \<Rightarrow> (string \<times> go_value) list \<Rightarrow> pkg \<Rightarrow> Entry list \<times> Outcome" where
  "DPanic msg options s =
     (let fs = parseFields options in call_Logger (fLogger s) DPanicLevel msg fs)"



subsection \<open>Recover\<close>

text \<open>
  The goroutine in which \<open>Recover\<close> is invoked. \<open>panicking\<close> is \<open>None\<close> when no panic is
  unwinding and \<open>Some v\<close> when one raised with the value \<open>v\<close> is; \<open>v\<close> is \<open>None\<close> for
  \<open>panic(nil)\<close> as Go before 1.21 has it (from 1.21 on the runtime puts a non-nil
  \<open>*runtime.PanicNilError\<close> in its place). \<open>direct\<close> says that \<open>Recover\<close> is the function
  the \<open>defer\<close> statement calls, as in \<open>defer logger.Recover()\<close>, and not one called by
  a deferred function. \<open>stack\<close> is the text \<open>debug.Stack\<close> returns.
\<close>

record goroutine =
  panicking :: "go_value option option"
  direct :: bool
  stack :: string

text \<open>
  Go's builtin \<open>recover()\<close>, as \<open>Recover\<close> calls it: called directly by the deferred
  function while a panic is unwinding, it stops the panic and returns its value (nil for
  a nil value); in every other case it returns nil and changes nothing.
\<close>

definition recover :: "goroutine \<Rightarrow> go_value option \<times> goroutine" where
  "recover g =
     (if direct g
      then (case panicking g of
              None \<Rightarrow> (None, g)
            | Some v \<Rightarrow> (v, g\<lparr>panicking := None\<rparr>))
      else (None, g))"

definition debug_Stack :: "goroutine \<Rightarrow> string" where
  "debug_Stack g = stack g"

text \<open>
  \<open>Recover\<close> gives the log calls the collaborator received, how its own body ended,
  and the goroutine as \<open>recover()\<close> left it.
\<close>

definition Recover :: "pkg \<Rightarrow> goroutine \<Rightarrow> Entry list \<times> Outcome \<times> goroutine" where
  "Recover s g =
     (case recover g of
        (None, g') \<Rightarrow> ([], Returns, g')
      | (Some err, g') \<Rightarrow>
          (case DPanic ''exec panic''
                  [(''error'', err), (''error_trace'', VString (debug_Stack g'))] s of
             (es, out) \<Rightarrow> (es, out, g')))"

text \<open>
  After the deferred call: execution resumes normally when the body of \<open>Recover\<close>
  returned and no panic is unwinding any more.
\<close>

definition resumes :: "Entry list \<times> Outcome \<times> goroutine \<Rightarrow> bool" where
  "resumes r = (fst (snd r) = Returns \<and> panicking (snd (snd r)) = None)"

text \<open>
  Modelled from the spec: the Worker's loop, whose code is not among the sources, with
  the failure isolation of spec section 4.2 done by this package: each task's action is
  run in a function that defers \<open>Recover\<close>, and the loop goes on to the next task when
  that function returns normally. An action returns or panics with a value. The result
  is the log calls made, the number of actions run, and whether the worker is still
  alive at the end.
\<close>

datatype Action = ActReturns | ActPanics "go_value option"

definition guarded :: "pkg \<Rightarrow> string \<Rightarrow> Action \<Rightarrow> Entry list \<times> Outcome \<times> goroutine" where
  "guarded s stk a =
     Recover s \<lparr>panicking = (case a of ActReturns \<Rightarrow> None | ActPanics v \<Rightarrow> Some v),
                direct = True, stack = stk\<rparr>"

fun worker :: "pkg \<Rightarrow> string \<Rightarrow> Action list \<Rightarrow> Entry list \<times> nat \<times> bool" where
  "worker s stk [] = ([], 0, True)"
| "worker s stk (a # rest) =
     (let r = guarded s stk a
      in if resumes r
         then (case worker s stk rest of (es, n, alive) \<Rightarrow> (fst r @ es, Suc n, alive))
         else (fst r, 1, False))"

subsection \<open>Histories of package calls\<close>

text \<open>
  The exported functions that assign package variables, as calls, and the state a
  history of such calls leads to from the initial one. \<open>fLogger\<close> and \<open>core\<close> are not
  exported, so no other code assigns them.
\<close>

datatype Call =
  CallMaxAge int | CallMaxSize int | CallCompress bool | CallTraceFileLine bool
| CallLogLevel string | CallSetLogFile string | CallSetLogDir string
| CallInitLogger "int list" | CallLogSugar "int list"

fun isInitLogger :: "Call \<Rightarrow> bool" where
  "isInitLogger (CallInitLogger _) = True"
| "isInitLogger _ = False"

fun perform :: "os \<Rightarrow> pkg \<Rightarrow> Call \<Rightarrow> pkg" where
  "perform e s (CallMaxAge n) = MaxAge n s"
| "perform e s (CallMaxSize n) = MaxSize n s"
| "perform e s (CallCompress b) = Compress b s"
| "perform e s (CallTraceFileLine b) = TraceFileLine b s"
| "perform e s (CallLogLevel l) = LogLevel l s"
| "perform e s (CallSetLogFile n) = SetLogFile n s"
| "perform e s (CallSetLogDir d) = SetLogDir e d s"
| "perform e s (CallInitLogger skip) = InitLogger e skip s"
| "perform e s (CallLogSugar skip) = snd (LogSugar e skip s)"

definition run :: "os \<Rightarrow> Call list \<Rightarrow> pkg" where
  "run e cs = foldl (perform e) init_pkg cs"

definition os0 :: os where
  "os0 = \<lparr>TempDir = ''/tmp'', Join = (\<lambda>a b. a @ ''/'' @ b), StatOk = (\<lambda>_. True),
          MkdirAllOk = (\<lambda>_. True)\<rparr>"

definition g0 :: goroutine where
  "g0 = \<lparr>panicking = Some (Some (VError ''boom'')), direct = True,
          stack = ''goroutine 1 [running]''\<rparr>"

text \<open>
  \<open>fLogger\<close> holds a logger that is not in development mode: what every \<open>InitLogger\<close>
  call leaves behind.
\<close>

definition logger_ready :: "pkg \<Rightarrow> bool" where
  "logger_ready s = (case fLogger s of None \<Rightarrow> False | Some lg \<Rightarrow> \<not> development lg)"

text \<open>The level at which the logger behind \<open>fLogger\<close> was initialised.\<close>

definition loggerLevel :: "pkg \<Rightarrow> Level option" where
  "loggerLevel s =
     (case fLogger s of None \<Rightarrow> None | Some lg \<Rightarrow> map_option core_level (zcore lg))"

definition levelNames :: "string list" where
  "levelNames = [''debug'', ''info'', ''warn'', ''error'', ''dpanic'', ''panic'', ''fatal'']"

section \<open>The worker pool\<close>

text \<open>
  The pool's code (workpool, work, gqueue) is not among the sources. This section models
  it from the specification: the data model of its section 3, the contracts of sections
  4.1 to 4.3 and the state machine of section 4.4. Concurrency is interleaving: every
  call and every move of a worker is one atomic event, and a history is any sequence of
  events.
\<close>

text \<open>
  Modelled from the spec: a Task, of which the pool's code is missing. Its action is
  known by \<open>ident\<close> and by whether running it raises a fault; \<open>submitter\<close> is the
  caller that submits it.
\<close>

record task =
  submitter :: nat
  ident :: nat
  faulty :: bool

text \<open>
  Modelled from the spec: the policy on a full queue, the three states of the pool, what
  a worker is doing (waiting in \<open>Pop\<close>, executing a task, or out of its loop), and the
  results of \<open>Submit\<close>, \<open>Stop\<close> and \<open>NewPool\<close>.
\<close>

datatype FullPolicy = Block | Reject | TimeoutAfter nat

datatype PoolState = Running | Draining | Stopped

datatype Worker = Waiting | Executing task | Exited

datatype SubmitResult = SubmitOk | QueueFull | Timeout | PoolClosed

datatype StopResult = StopStopped | ShutdownTimeout

datatype ConfigError = ConfigError

text \<open>
  Modelled from the spec: the Pool with its Bounded Queue (\<open>capacity\<close>, \<open>items\<close>), its
  fixed set of Workers and its state. \<open>accepted\<close>, \<open>started\<close>, \<open>executed\<close>, \<open>discarded\<close>,
  \<open>logged\<close> and \<open>drains\<close> are history variables: the tasks Submit took, those a worker
  began, those whose action has run, those an immediate stop threw away, the faults
  handed to the logging collaborator, and how many drains were begun.
\<close>

record pool =
  workerCount :: nat
  capacity :: nat
  policy :: FullPolicy
  state :: PoolState
  items :: "task list"
  workers :: "Worker list"
  accepted :: "task list"
  started :: "task list"
  executed :: "task list"
  discarded :: "task list"
  logged :: "task list"
  drains :: nat

text \<open>
  Modelled from the spec: \<open>New(workerCount, queueCapacity, policy)\<close> validates
  \<open>workerCount \<ge> 1\<close> and \<open>queueCapacity \<ge> 0\<close> and gives a Running pool whose workers are
  started and listening.
\<close>

definition NewPool :: "int \<Rightarrow> int \<Rightarrow> FullPolicy \<Rightarrow> ConfigError + pool" where
  "NewPool wc qc pol =
     (if wc < 1 \<or> qc < 0 then Inl ConfigError
      else Inr \<lparr>workerCount = nat wc, capacity = nat qc, policy = pol, state = Running,
                items = [], workers = replicate (nat wc) Waiting, accepted = [],
                started = [], executed = [], discarded = [], logged = [], drains = 0\<rparr>)"

text \<open>
  Modelled from the spec: the worker that takes a hand-off (the first one waiting), the
  tasks being executed, and \<open>active\<close>, the number of workers executing a task.
\<close>

fun firstWaiting :: "Worker list \<Rightarrow> nat option" where
  "firstWaiting [] = None"
| "firstWaiting (w # ws) = (if w = Waiting then Some 0 else map_option Suc (firstWaiting ws))"

fun running :: "Worker list \<Rightarrow> task list" where
  "running [] = []"
| "running (Executing t # ws) = t # running ws"
| "running (w # ws) = running ws"

definition active :: "pool \<Rightarrow> nat" where
  "active s = length (running (workers s))"

text \<open>Modelled from the spec: \<open>Stats()\<close> returns \<open>(pending, active, workerCount)\<close>.\<close>

definition Stats :: "pool \<Rightarrow> nat \<times> nat \<times> nat" where
  "Stats s = (length (items s), active s, workerCount s)"

text \<open>
  Modelled from the spec: what a Push on a full queue answers under each policy;
  \<open>None\<close> is a caller that stays suspended. The model has no clock: a caller under
  \<open>TimeoutAfter\<close> that finds the queue full is answered \<open>Timeout\<close>, and one that would
  have got in before its time ran out is a later call.
\<close>

definition whenFull :: "pool \<Rightarrow> SubmitResult option \<times> pool" where
  "whenFull s =
     (case policy s of
        Block \<Rightarrow> (None, s)
      | Reject \<Rightarrow> (Some QueueFull, s)
      | TimeoutAfter d \<Rightarrow> (Some Timeout, s))"

text \<open>
  Modelled from the spec: \<open>Submit\<close> fails with \<open>PoolClosed\<close> unless the pool is Running,
  inserts at the tail while the queue has room, and with capacity zero hands the task
  straight to a worker that is ready to take it.
\<close>

definition Submit :: "task \<Rightarrow> pool \<Rightarrow> SubmitResult option \<times> pool" where
  "Submit t s =
     (if state s \<noteq> Running then (Some PoolClosed, s)
      else if length (items s) < capacity s
      then (Some SubmitOk, s\<lparr>items := items s @ [t], accepted := accepted s @ [t]\<rparr>)
      else if capacity s = 0
      then (case firstWaiting (workers s) of
              Some i \<Rightarrow> (Some SubmitOk,
                         s\<lparr>workers := (workers s)[i := Executing t],
                           accepted := accepted s @ [t], started := started s @ [t]\<rparr>)
            | None \<Rightarrow> whenFull s)
      else whenFull s)"

text \<open>
  Modelled from the spec: \<open>Stop\<close> triggers Running to Draining, in either mode; the
  immediate mode discards what waits in the queue. There is no transition out of any
  other state.
\<close>

definition Stop :: "bool \<Rightarrow> pool \<Rightarrow> pool" where
  "Stop graceful s =
     (if state s \<noteq> Running then s
      else if graceful then s\<lparr>state := Draining, drains := Suc (drains s)\<rparr>
      else s\<lparr>state := Draining, drains := Suc (drains s),
             discarded := discarded s @ items s, items := []\<rparr>)"

text \<open>
  Modelled from the spec: \<open>Stop\<close> blocks until the pool is Stopped, or reports
  \<open>ShutdownTimeout\<close> when the caller's timeout runs out first; \<open>None\<close> is a caller still
  waiting.
\<close>

definition StopReturn :: "bool \<Rightarrow> pool \<Rightarrow> StopResult option" where
  "StopReturn timedOut s =
     (if state s = Stopped then Some StopStopped
      else if timedOut then Some ShutdownTimeout
      else None)"

text \<open>
  Modelled from the spec: one move of worker \<open>i\<close>. A worker that executes finishes its
  task, whose fault, if any, goes to the logging collaborator, and waits again; one that
  waits takes the head of the queue, or exits on the closed and empty queue, or keeps
  waiting.
\<close>

definition workerStep :: "nat \<Rightarrow> pool \<Rightarrow> pool" where
  "workerStep i s =
     (if length (workers s) \<le> i then s
      else case workers s ! i of
             Executing t \<Rightarrow>
               s\<lparr>workers := (workers s)[i := Waiting], executed := executed s @ [t],
                 logged := (if faulty t then logged s @ [t] else logged s)\<rparr>
           | Waiting \<Rightarrow>
               (case items s of
                  t # rest \<Rightarrow>
                    s\<lparr>workers := (workers s)[i := Executing t], items := rest,
                      started := started s @ [t]\<rparr>
                | [] \<Rightarrow> if state s \<noteq> Running then s\<lparr>workers := (workers s)[i := Exited]\<rparr>
                        else s)
           | Exited \<Rightarrow> s)"

text \<open>
  Modelled from the spec: Draining to Stopped, once the queue is closed and empty and
  every worker's loop has exited.
\<close>

definition settle :: "pool \<Rightarrow> pool" where
  "settle s =
     (if state s = Draining \<and> items s = [] \<and> list_all (\<lambda>w. w = Exited) (workers s)
      then s\<lparr>state := Stopped\<rparr> else s)"

text \<open>
  Modelled from the spec: the events of the interleaving model, one per call of a
  submitter or of a stopper and one per move of a worker or of the shutdown
  coordinator, and the state a history of events leads to.
\<close>

datatype Event = EvSubmit task | EvStop bool | EvWorker nat | EvSettle

fun step :: "pool \<Rightarrow> Event \<Rightarrow> pool" where
  "step s (EvSubmit t) = snd (Submit t s)"
| "step s (EvStop graceful) = Stop graceful s"
| "step s (EvWorker i) = workerStep i s"
| "step s EvSettle = settle s"

definition exec :: "Event list \<Rightarrow> pool \<Rightarrow> pool" where
  "exec evs s = foldl step s evs"

text \<open>The pool is drained: nothing waits in the queue and no worker executes.\<close>

definition drained :: "pool \<Rightarrow> bool" where
  "drained s = (items s = [] \<and> running (workers s) = [])"

text \<open>What holds of every pool a history can reach.\<close>

definition pool_inv :: "pool \<Rightarrow> bool" where
  "pool_inv s =
     (length (workers s) = workerCount s \<and>
      length (items s) \<le> capacity s \<and>
      accepted s = started s @ items s @ discarded s \<and>
      mset (started s) = mset (executed s) + mset (running (workers s)) \<and>
      (state s = Running \<longrightarrow> discarded s = [] \<and> drains s = 0) \<and>
      (state s \<noteq> Running \<longrightarrow> drains s = 1) \<and>
      (state s = Stopped \<longrightarrow> items s = [] \<and> list_all (\<lambda>w. w = Exited) (workers s)))"

text \<open>
  What each \<open>Submit\<close> call of a history was answered, in order, and the tasks of the
  calls that were answered \<open>SubmitOk\<close>.
\<close>

fun answers :: "Event list \<Rightarrow> pool \<Rightarrow> (task \<times> SubmitResult option) list" where
  "answers [] s = []"
| "answers (EvSubmit t # evs) s = (t, fst (Submit t s)) # answers evs (step s (EvSubmit t))"
| "answers (EvStop g # evs) s = answers evs (step s (EvStop g))"
| "answers (EvWorker i # evs) s = answers evs (step s (EvWorker i))"
| "answers (EvSettle # evs) s = answers evs (step s EvSettle)"

definition okSubmits :: "Event list \<Rightarrow> pool \<Rightarrow> task list" where
  "okSubmits evs s = map fst (filter (\<lambda>a. snd a = Some SubmitOk) (answers evs s))"

definition task1 :: task where
  "task1 = \<lparr>submitter = 0, ident = 1, faulty = True\<rparr>"

definition task2 :: task where
  "task2 = \<lparr>submitter = 0, ident = 2, faulty = False\<rparr>"

definition pool1 :: pool where
  "pool1 =
     \<lparr>workerCount = 1, capacity = 1, policy = Block, state = Running, items = [],
      workers = [Waiting], accepted = [], started = [], executed = [], discarded = [],
      logged = [], drains = 0\<rparr>"



definition evs4 :: "Event list" where
  "evs4 = [EvSubmit task2, EvStop False, EvStop True, EvWorker 0, EvSettle]"

definition evs5 :: "Event list" where
  "evs5 = [EvWorker 0, EvWorker 0, EvWorker 0, EvSettle]"








section \<open>Properties of the logger\<close>

subsection \<open>What InitLogger leaves behind\<close>

lemma zap_New_not_development:
  "\<not> development (zap_New c [])"
  "\<not> development (zap_New c [AddCaller, AddCallerSkip k])"
  by (simp_all add: zap_New_def NewNop_def split: option.splits)

lemma InitLogger_fLogger:
  "\<exists>lg. fLogger (InitLogger e skip s) = Some lg \<and> \<not> development lg"
  by (auto simp: InitLogger_def Let_def zap_New_not_development split: list.splits)

lemma perform_fLogger_other:
  "\<not> isInitLogger c \<Longrightarrow> fLogger (perform e s c) = fLogger s"
  by (cases c)
     (simp_all add: MaxAge_def MaxSize_def Compress_def TraceFileLine_def LogLevel_def
        SetLogFile_def SetLogDir_def LogSugar_def initCore_def Let_def split: list.splits)

lemma perform_ready:
  "logger_ready s \<or> isInitLogger c \<Longrightarrow> logger_ready (perform e s c)"
proof (cases "isInitLogger c")
  case True
  then obtain skip where "c = CallInitLogger skip" by (cases c) simp_all
  then show ?thesis using InitLogger_fLogger [of e skip s] by (auto simp: logger_ready_def)
next
  case False
  assume "logger_ready s \<or> isInitLogger c"
  with False show ?thesis by (simp add: logger_ready_def perform_fLogger_other)
qed

lemma foldl_ready:
  "logger_ready s \<or> list_ex isInitLogger cs \<Longrightarrow> logger_ready (foldl (perform e) s cs)"
proof (induction cs arbitrary: s)
  case Nil
  then show ?case by simp
next
  case (Cons c cs)
  show ?case
  proof (cases "logger_ready s \<or> isInitLogger c")
    case True
    then have "logger_ready (perform e s c)" by (rule perform_ready)
    then show ?thesis using Cons.IH by simp
  next
    case False
    with Cons.prems have "list_ex isInitLogger cs" by simp
    then show ?thesis using Cons.IH by simp
  qed
qed

lemma foldl_unready:
  "\<not> list_ex isInitLogger cs \<Longrightarrow> fLogger (foldl (perform e) s cs) = fLogger s"
  by (induction cs arbitrary: s) (simp_all add: perform_fLogger_other)

lemma run_ready: "list_ex isInitLogger cs \<Longrightarrow> logger_ready (run e cs)"
  by (simp add: run_def foldl_ready)

lemma run_unready: "\<not> list_ex isInitLogger cs \<Longrightarrow> fLogger (run e cs) = None"
  by (simp add: run_def foldl_unready init_pkg_def)

subsection \<open>Recover\<close>

lemma recover_direct:
  "direct g \<Longrightarrow> panicking g = Some v \<Longrightarrow> recover g = (v, g\<lparr>panicking := None\<rparr>)"
  by (simp add: recover_def)

lemma Recover_ready:
  assumes "logger_ready s" and "direct g" and "panicking g = Some (Some err)"
  shows "Recover s g =
           ([\<lparr>entry_level = DPanicLevel, entry_msg = ''exec panic'',
              entry_fields = [(''error'', err), (''error_trace'', VString (stack g))]\<rparr>],
            Returns, g\<lparr>panicking := None\<rparr>)"
  using assms
  by (auto simp: Recover_def recover_direct DPanic_def parseFields_def call_Logger_def
        zap_log_def logger_ready_def zap_Any_def debug_Stack_def split: option.splits)

lemma Recover_idle: "panicking g = None \<Longrightarrow> Recover s g = ([], Returns, g)"
  by (simp add: Recover_def recover_def)

lemma Recover_nil_value:
  "direct g \<Longrightarrow> panicking g = Some None \<Longrightarrow> Recover s g = ([], Returns, g\<lparr>panicking := None\<rparr>)"
  by (simp add: Recover_def recover_def)

lemma Recover_indirect: "\<not> direct g \<Longrightarrow> Recover s g = ([], Returns, g)"
  by (simp add: Recover_def recover_def)

lemma Recover_unready:
  assumes "fLogger s = None" and "direct g" and "panicking g = Some (Some err)"
  shows "Recover s g = ([], Panics nilDeref, g\<lparr>panicking := None\<rparr>)"
  using assms by (simp add: Recover_def recover_direct DPanic_def call_Logger_def)

text \<open>
  C1, as stated, at the package's initial state: \<open>InitLogger\<close> has not run, \<open>fLogger\<close> is
  nil, and \<open>Recover\<close> is the deferred call while a panic with the value \<open>boom\<close> is
  unwinding. \<open>Recover\<close> takes the panic, calls \<open>DPanic\<close>, and the nil handle is
  dereferenced: the collaborator receives no call and \<open>Recover\<close> itself ends in a panic.
\<close>

theorem Recover_before_InitLogger:
  "Recover init_pkg g0 = ([], Panics nilDeref, g0\<lparr>panicking := None\<rparr>)"
  by (rule Recover_unready) (simp_all add: init_pkg_def g0_def)

text \<open>
  Two more invocations during a panic that make no log call, both after \<open>InitLogger\<close>.
  Called by a deferred function instead of being deferred itself, \<open>Recover\<close> gets nil
  from \<open>recover()\<close> and the panic goes on; and a panic raised with the value nil is
  stopped without a log call.
\<close>

lemma Recover_indirect_example:
  "Recover (run os0 [CallInitLogger [1]]) (g0\<lparr>direct := False\<rparr>) =
     ([], Returns, g0\<lparr>direct := False\<rparr>) \<and>
   panicking (g0\<lparr>direct := False\<rparr>) = Some (Some (VError ''boom''))"
  by (simp add: Recover_indirect) (simp add: g0_def)

lemma Recover_nil_value_example:
  "Recover (run os0 [CallInitLogger [1]]) (g0\<lparr>panicking := Some None\<rparr>) =
     ([], Returns, g0\<lparr>panicking := None\<rparr>)"
  using Recover_nil_value [of "g0\<lparr>panicking := Some None\<rparr>" "run os0 [CallInitLogger [1]]"]
  by (simp add: g0_def)

text \<open>
  C1, amended: in every package state reached by a history of calls that contains
  \<open>InitLogger\<close>, an invocation of \<open>Recover\<close> as the deferred call itself, while a panic
  with a non-nil value \<open>err\<close> is unwinding, recovers the panic (the body returns and no
  panic is unwinding afterwards) and makes exactly one log call, at DPanic level, with
  the message \<open>exec panic\<close> and the fields \<open>error\<close> (the recovered value) and
  \<open>error_trace\<close> (the stack trace). In any state, \<open>Recover\<close> makes no log call when no
  panic is active, when the panic value is nil (the panic is then recovered all the
  same), or when \<open>Recover\<close> is not the deferred call itself (the goroutine is then left
  as it was, a panic still unwinding).
\<close>

theorem Recover_logs_once:
  "(list_ex isInitLogger cs \<longrightarrow> direct g \<longrightarrow> panicking g = Some (Some err) \<longrightarrow>
      map entry_level (fst (Recover (run e cs) g)) = [DPanicLevel] \<and>
      map entry_msg (fst (Recover (run e cs) g)) = [''exec panic''] \<and>
      map (set \<circ> entry_fields) (fst (Recover (run e cs) g)) =
        [{(''error'', err), (''error_trace'', VString (stack g))}] \<and>
      snd (Recover (run e cs) g) = (Returns, g\<lparr>panicking := None\<rparr>)) \<and>
   (panicking g = None \<longrightarrow> Recover s g = ([], Returns, g)) \<and>
   (direct g \<longrightarrow> panicking g = Some None \<longrightarrow>
      Recover s g = ([], Returns, g\<lparr>panicking := None\<rparr>)) \<and>
   (\<not> direct g \<longrightarrow> Recover s g = ([], Returns, g))"
  by (auto simp: Recover_ready [OF run_ready] Recover_idle Recover_nil_value Recover_indirect)

theorem Recover_logs_once_witness:
  "list_ex isInitLogger [CallInitLogger [1]] \<and> direct g0 \<and>
   panicking g0 = Some (Some (VError ''boom'')) \<and>
   map entry_level (fst (Recover (run os0 [CallInitLogger [1]]) g0)) = [DPanicLevel] \<and>
   map entry_msg (fst (Recover (run os0 [CallInitLogger [1]]) g0)) = [''exec panic''] \<and>
   map (set \<circ> entry_fields) (fst (Recover (run os0 [CallInitLogger [1]]) g0)) =
     [{(''error'', VError ''boom''), (''error_trace'', VString ''goroutine 1 [running]'')}] \<and>
   snd (Recover (run os0 [CallInitLogger [1]]) g0) = (Returns, g0\<lparr>panicking := None\<rparr>) \<and>
   panicking (g0\<lparr>panicking := None\<rparr>) = None \<and>
   Recover init_pkg (g0\<lparr>panicking := None\<rparr>) = ([], Returns, g0\<lparr>panicking := None\<rparr>) \<and>
   \<not> direct (g0\<lparr>direct := False\<rparr>) \<and>
   Recover init_pkg (g0\<lparr>direct := False\<rparr>) = ([], Returns, g0\<lparr>direct := False\<rparr>)"
  using Recover_logs_once [of "[CallInitLogger [1]]" g0 "VError ''boom''" os0]
    Recover_logs_once [of "[]" "g0\<lparr>panicking := None\<rparr>" "VError ''boom''" os0 init_pkg]
    Recover_logs_once [of "[]" "g0\<lparr>direct := False\<rparr>" "VError ''boom''" os0 init_pkg]
  by (simp add: g0_def)

subsection \<open>A worker that defers Recover\<close>

lemma guarded_ready:
  "logger_ready s \<Longrightarrow> resumes (guarded s stk a)"
proof (cases a)
  case ActReturns
  then show ?thesis by (simp add: guarded_def Recover_idle resumes_def)
next
  case (ActPanics v)
  assume r: "logger_ready s"
  show ?thesis
  proof (cases v)
    case None
    with ActPanics show ?thesis by (simp add: guarded_def Recover_nil_value resumes_def)
  next
    case (Some err)
    with ActPanics r show ?thesis by (simp add: guarded_def Recover_ready resumes_def)
  qed
qed

lemma worker_ready:
  "logger_ready s \<Longrightarrow> snd (worker s stk acts) = (length acts, True)"
  by (induction acts) (auto simp: guarded_ready Let_def split: prod.splits)

text \<open>
  C2, as stated, before \<open>InitLogger\<close> has run: \<open>Recover\<close>, the deferred call, takes the
  panic of a faulting task and then ends in a panic of its own on the nil handle, so
  execution does not resume; the worker that ran the task is terminated by it and the
  next task is never run.
\<close>

theorem Recover_fault_propagates:
  "Recover (run os0 [CallLogLevel ''warn''])
     \<lparr>panicking = Some (Some (VString ''bad task'')), direct = True, stack = ''worker''\<rparr> =
     ([], Panics nilDeref, \<lparr>panicking = None, direct = True, stack = ''worker''\<rparr>) \<and>
   worker (run os0 [CallLogLevel ''warn'']) ''worker''
     [ActPanics (Some (VString ''bad task'')), ActReturns] = ([], 1, False)"
proof -
  have nil: "fLogger (run os0 [CallLogLevel ''warn'']) = None" by (rule run_unready) simp
  have r: "Recover (run os0 [CallLogLevel ''warn''])
     \<lparr>panicking = Some (Some (VString ''bad task'')), direct = True, stack = ''worker''\<rparr> =
     ([], Panics nilDeref, \<lparr>panicking = None, direct = True, stack = ''worker''\<rparr>)"
    using Recover_unready [OF nil, of
        "\<lparr>panicking = Some (Some (VString ''bad task'')), direct = True, stack = ''worker''\<rparr>"
        "VString ''bad task''"]
    by simp
  then show ?thesis by (simp add: guarded_def resumes_def)
qed

text \<open>
  C2, amended: a DPanic log call on a logger that is not in development mode returns.
  Hence, once \<open>InitLogger\<close> has constructed the logger, \<open>Recover\<close> run as the deferred
  call itself while a panic is unwinding stops that panic and returns: no panic is
  unwinding afterwards and execution resumes normally in the goroutine. So no faulting
  task terminates a worker that runs each task under a deferred \<open>Recover\<close>: it runs
  every task of its queue and is alive at the end.
\<close>

theorem Recover_resumes:
  "(\<not> development lg \<longrightarrow> snd (zap_log lg DPanicLevel msg fs) = Returns) \<and>
   (list_ex isInitLogger cs \<longrightarrow> direct g \<longrightarrow> panicking g = Some v \<longrightarrow>
      snd (Recover (run e cs) g) = (Returns, g\<lparr>panicking := None\<rparr>) \<and>
      resumes (Recover (run e cs) g)) \<and>
   (list_ex isInitLogger cs \<longrightarrow> snd (worker (run e cs) stk acts) = (length acts, True))"
proof (intro conjI impI)
  show "snd (zap_log lg DPanicLevel msg fs) = Returns" if "\<not> development lg"
    using that by (simp add: zap_log_def)
next
  assume i: "list_ex isInitLogger cs" and d: "direct g" and p: "panicking g = Some v"
  have r: "logger_ready (run e cs)" using i by (rule run_ready)
  show s: "snd (Recover (run e cs) g) = (Returns, g\<lparr>panicking := None\<rparr>)"
  proof (cases v)
    case None
    with d p show ?thesis by (simp add: Recover_nil_value)
  next
    case (Some err)
    with d p r show ?thesis by (simp add: Recover_ready)
  qed
  then show "resumes (Recover (run e cs) g)" by (simp add: resumes_def)
next
  assume "list_ex isInitLogger cs"
  then have "logger_ready (run e cs)" by (rule run_ready)
  then show "snd (worker (run e cs) stk acts) = (length acts, True)" by (rule worker_ready)
qed

theorem Recover_resumes_witness:
  "\<not> development (zap_New None []) \<and>
   snd (zap_log (zap_New None []) DPanicLevel ''exec panic'' []) = Returns \<and>
   list_ex isInitLogger [CallLogLevel ''warn'', CallInitLogger []] \<and> direct g0 \<and>
   panicking g0 = Some (Some (VError ''boom'')) \<and>
   snd (Recover (run os0 [CallLogLevel ''warn'', CallInitLogger []]) g0) =
     (Returns, g0\<lparr>panicking := None\<rparr>) \<and>
   snd (worker (run os0 [CallLogLevel ''warn'', CallInitLogger []]) ''worker''
          [ActPanics (Some (VString ''bad task'')), ActReturns]) = (2, True)"
  using Recover_resumes [of "zap_New None []" "''exec panic''" "[]"
      "[CallLogLevel ''warn'', CallInitLogger []]" g0 "Some (VError ''boom'')" os0 "''worker''"
      "[ActPanics (Some (VString ''bad task'')), ActReturns]"]
  by (simp add: g0_def zap_New_def NewNop_def)

subsection \<open>Log calls before and after InitLogger\<close>






subsection \<open>Levels\<close>

lemma getLevel_other: "lvl \<notin> set levelNames \<Longrightarrow> getLevel lvl = InfoLevel"
  by (simp add: getLevel_def levelMap_def levelNames_def)

lemma InitLogger_level:
  "core s = None \<Longrightarrow> loggerLevel (InitLogger e skip s) = Some (getLevel (logLevel s))"
  by (simp add: InitLogger_def initCore_def loggerLevel_def zap_New_def Let_def
        split: list.splits)

text \<open>
  C9: \<open>getLevel\<close> maps each of the seven level names to its level and every other string
  to \<open>InfoLevel\<close>; so, after \<open>LogLevel\<close> with an unrecognised name, \<open>InitLogger\<close> (which
  builds the core then) sets up the logger at info level instead of rejecting the name.
\<close>

theorem getLevel_total:
  "map getLevel levelNames =
     [DebugLevel, InfoLevel, WarnLevel, ErrorLevel, DPanicLevel, PanicLevel, FatalLevel] \<and>
   (lvl \<notin> set levelNames \<longrightarrow> getLevel lvl = InfoLevel) \<and>
   (lvl \<notin> set levelNames \<longrightarrow> core s = None \<longrightarrow>
      loggerLevel (InitLogger e skip (LogLevel lvl s)) = Some InfoLevel)"
proof (intro conjI impI)
  show "map getLevel levelNames =
     [DebugLevel, InfoLevel, WarnLevel, ErrorLevel, DPanicLevel, PanicLevel, FatalLevel]"
    by (simp add: getLevel_def levelMap_def levelNames_def)
  show "getLevel lvl = InfoLevel" if "lvl \<notin> set levelNames"
    using that by (rule getLevel_other)
  show "loggerLevel (InitLogger e skip (LogLevel lvl s)) = Some InfoLevel"
    if "lvl \<notin> set levelNames" "core s = None"
    using that by (simp add: InitLogger_level LogLevel_def getLevel_other)
qed

theorem getLevel_total_witness:
  "''verbose'' \<notin> set levelNames \<and> core init_pkg = None \<and> getLevel ''verbose'' = InfoLevel \<and>
   loggerLevel (InitLogger os0 [1] (LogLevel ''verbose'' init_pkg)) = Some InfoLevel"
  using getLevel_total [of "''verbose''" init_pkg os0 "[1]"]
  by (simp add: levelNames_def init_pkg_def)

subsection \<open>SetLogFile\<close>

text \<open>
  C10: \<open>SetLogFile\<close> with the empty string changes nothing, so \<open>logFileName\<close> keeps its
  value; with a non-empty name it sets \<open>logFileName\<close> to that name; either way every
  other package variable keeps its value.
\<close>

theorem SetLogFile_frame:
  "(name = '''' \<longrightarrow> SetLogFile name s = s) \<and>
   (name \<noteq> '''' \<longrightarrow> logFileName (SetLogFile name s) = name) \<and>
   (SetLogFile name s)\<lparr>logFileName := x\<rparr> = s\<lparr>logFileName := x\<rparr> \<and>
   fLogger (SetLogFile name s) = fLogger s \<and> core (SetLogFile name s) = core s \<and>
   logMaxAge (SetLogFile name s) = logMaxAge s \<and> logMaxSize (SetLogFile name s) = logMaxSize s \<and>
   logCompress (SetLogFile name s) = logCompress s \<and>
   logTraceFileLine (SetLogFile name s) = logTraceFileLine s \<and>
   logLevel (SetLogFile name s) = logLevel s \<and> logDir (SetLogFile name s) = logDir s"
  by (simp add: SetLogFile_def)

theorem SetLogFile_frame_witness:
  "SetLogFile '''' init_pkg = init_pkg \<and> ''app.log'' \<noteq> '''' \<and>
   logFileName (SetLogFile ''app.log'' init_pkg) = ''app.log'' \<and>
   logFileName (SetLogFile '''' init_pkg) = ''go-zap.log''"
  using SetLogFile_frame [of "''''" init_pkg] SetLogFile_frame [of "''app.log''" init_pkg]
  by (simp add: init_pkg_def)

section \<open>Properties of the pool\<close>

subsection \<open>The invariant\<close>

lemma running_replicate_Waiting: "running (replicate n Waiting) = []"
  by (induction n) simp_all

lemma running_all_Exited: "list_all (\<lambda>w. w = Exited) ws \<Longrightarrow> running ws = []"
  by (induction ws) auto

lemma firstWaiting_Some:
  "firstWaiting ws = Some i \<Longrightarrow> i < length ws \<and> ws ! i = Waiting"
proof (induction ws arbitrary: i)
  case Nil
  then show ?case by simp
next
  case (Cons w ws)
  then show ?case by (auto split: if_splits)
qed

lemma running_take:
  "i < length ws \<Longrightarrow> ws ! i = Waiting \<Longrightarrow>
   mset (running (ws[i := Executing t])) = add_mset t (mset (running ws))"
proof (induction ws arbitrary: i)
  case Nil
  then show ?case by simp
next
  case (Cons w ws)
  show ?case
  proof (cases i)
    case 0
    with Cons.prems show ?thesis by simp
  next
    case (Suc j)
    with Cons show ?thesis by (cases w) simp_all
  qed
qed

lemma running_finish:
  "i < length ws \<Longrightarrow> ws ! i = Executing t \<Longrightarrow>
   add_mset t (mset (running (ws[i := Waiting]))) = mset (running ws)"
proof (induction ws arbitrary: i)
  case Nil
  then show ?case by simp
next
  case (Cons w ws)
  show ?case
  proof (cases i)
    case 0
    with Cons.prems show ?thesis by simp
  next
    case (Suc j)
    with Cons show ?thesis by (cases w) simp_all
  qed
qed

lemma running_exit:
  "i < length ws \<Longrightarrow> ws ! i = Waiting \<Longrightarrow> running (ws[i := Exited]) = running ws"
proof (induction ws arbitrary: i)
  case Nil
  then show ?case by simp
next
  case (Cons w ws)
  show ?case
  proof (cases i)
    case 0
    with Cons.prems show ?thesis by simp
  next
    case (Suc j)
    with Cons show ?thesis by (cases w) simp_all
  qed
qed

lemma all_Exited_nth:
  "list_all (\<lambda>w. w = Exited) ws \<Longrightarrow> i < length ws \<Longrightarrow> ws ! i = Exited"
  by (simp add: list_all_length)

lemma length_running_le: "length (running ws) \<le> length ws"
  by (induction ws rule: running.induct) simp_all

lemma NewPool_inv: "NewPool wc qc pol = Inr p \<Longrightarrow> pool_inv p"
  by (auto simp: NewPool_def pool_inv_def running_replicate_Waiting split: if_splits)

lemma whenFull_same: "snd (whenFull s) = s"
  by (simp add: whenFull_def split: FullPolicy.splits)

lemma Submit_inv:
  assumes "pool_inv s"
  shows "pool_inv (snd (Submit t s))"
proof (cases "state s = Running")
  case False
  with assms show ?thesis by (simp add: Submit_def)
next
  case run: True
  show ?thesis
  proof (cases "length (items s) < capacity s")
    case True
    with run assms show ?thesis by (simp add: Submit_def pool_inv_def)
  next
    case full: False
    show ?thesis
    proof (cases "capacity s = 0 \<and> firstWaiting (workers s) \<noteq> None")
      case False
      with run full assms show ?thesis by (auto simp: Submit_def whenFull_same)
    next
      case True
      then obtain i where i: "firstWaiting (workers s) = Some i" by auto
      then have "i < length (workers s)" "workers s ! i = Waiting"
        using firstWaiting_Some by blast+
      with run full True i assms show ?thesis
        by (simp add: Submit_def pool_inv_def running_take)
    qed
  qed
qed

lemma Stop_inv: "pool_inv s \<Longrightarrow> pool_inv (Stop g s)"
  by (simp add: Stop_def pool_inv_def)

lemma settle_inv: "pool_inv s \<Longrightarrow> pool_inv (settle s)"
  by (simp add: settle_def pool_inv_def)

lemma workerStep_inv:
  assumes "pool_inv s"
  shows "pool_inv (workerStep i s)"
proof (cases "length (workers s) \<le> i")
  case True
  with assms show ?thesis by (simp add: workerStep_def)
next
  case False
  then have i: "i < length (workers s)" by simp
  show ?thesis
  proof (cases "workers s ! i")
    case Waiting
    show ?thesis
    proof (cases "items s")
      case Nil
      with Waiting i assms show ?thesis
        by (auto simp: workerStep_def pool_inv_def running_exit all_Exited_nth)
    next
      case (Cons t rest)
      with Waiting i assms show ?thesis
        by (auto simp: workerStep_def pool_inv_def running_take)
    qed
  next
    case (Executing t)
    with i assms running_finish [OF i Executing] show ?thesis
      by (auto simp: workerStep_def pool_inv_def all_Exited_nth)
  next
    case Exited
    with i assms show ?thesis by (simp add: workerStep_def)
  qed
qed

lemma step_inv: "pool_inv s \<Longrightarrow> pool_inv (step s ev)"
  by (cases ev) (simp_all add: Submit_inv Stop_inv workerStep_inv settle_inv)

lemma exec_inv: "pool_inv s \<Longrightarrow> pool_inv (exec evs s)"
  unfolding exec_def by (induction evs arbitrary: s) (simp_all add: step_inv)

subsection \<open>Histories\<close>

lemma exec_Nil: "exec [] s = s"
  by (simp add: exec_def)

lemma exec_Cons: "exec (ev # evs) s = exec evs (step s ev)"
  by (simp add: exec_def)

lemma exec_append: "exec (xs @ ys) s = exec ys (exec xs s)"
  by (simp add: exec_def)

lemma Submit_accepted:
  "accepted (snd (Submit t s)) =
     (if fst (Submit t s) = Some SubmitOk then accepted s @ [t] else accepted s)"
  by (auto simp: Submit_def whenFull_def split: option.splits FullPolicy.splits)

lemma accepted_others:
  "accepted (Stop g s) = accepted s" "accepted (workerStep i s) = accepted s"
  "accepted (settle s) = accepted s"
  by (auto simp: Stop_def workerStep_def settle_def split: Worker.splits list.splits)

lemma accepted_exec: "accepted (exec evs s) = accepted s @ okSubmits evs s"
proof (induction evs s rule: answers.induct)
  case (1 s)
  then show ?case by (simp add: exec_Nil okSubmits_def)
next
  case (2 t evs s)
  then show ?case by (simp add: exec_Cons okSubmits_def Submit_accepted)
next
  case (3 g evs s)
  then show ?case by (simp add: exec_Cons okSubmits_def accepted_others)
next
  case (4 i evs s)
  then show ?case by (simp add: exec_Cons okSubmits_def accepted_others)
next
  case (5 evs s)
  then show ?case by (simp add: exec_Cons okSubmits_def accepted_others)
qed

lemma NewPool_accepted: "NewPool wc qc pol = Inr p \<Longrightarrow> accepted p = []"
  by (auto simp: NewPool_def split: if_splits)

lemma step_closed:
  assumes "state s \<noteq> Running"
  shows "state (step s ev) \<noteq> Running \<and> discarded (step s ev) = discarded s"
  using assms
  by (cases ev)
     (auto simp: Submit_def Stop_def workerStep_def settle_def split: Worker.splits list.splits)

lemma exec_closed:
  "state s \<noteq> Running \<Longrightarrow>
   state (exec evs s) \<noteq> Running \<and> discarded (exec evs s) = discarded s"
proof (induction evs arbitrary: s)
  case Nil
  then show ?case by (simp add: exec_Nil)
next
  case (Cons ev evs)
  from step_closed [OF Cons.prems, of ev] Cons.IH [of "step s ev"]
  show ?case by (simp add: exec_Cons)
qed

lemma answers_closed:
  "state s \<noteq> Running \<Longrightarrow> list_all (\<lambda>a. snd a = Some PoolClosed) (answers evs s)"
proof (induction evs s rule: answers.induct)
  case (1 s)
  then show ?case by simp
next
  case (2 t evs s)
  from step_closed [OF "2.prems", of "EvSubmit t"] "2.IH" "2.prems"
  show ?case by (simp add: Submit_def)
next
  case (3 g evs s)
  from step_closed [OF "3.prems", of "EvStop g"] "3.IH" show ?case by simp
next
  case (4 i evs s)
  from step_closed [OF "4.prems", of "EvWorker i"] "4.IH" show ?case by simp
next
  case (5 evs s)
  from step_closed [OF "5.prems", of EvSettle] "5.IH" show ?case by simp
qed

lemma okSubmits_closed: "state s \<noteq> Running \<Longrightarrow> okSubmits evs s = []"
proof -
  assume "state s \<noteq> Running"
  then have "list_all (\<lambda>a. snd a = Some PoolClosed) (answers evs s)" by (rule answers_closed)
  then have "filter (\<lambda>a. snd a = Some SubmitOk) (answers evs s) = []"
    by (induction "answers evs s" arbitrary: evs s) (auto simp: list_all_iff filter_empty_conv)
  then show ?thesis by (simp add: okSubmits_def)
qed

lemma step_gentle:
  "ev \<noteq> EvStop False \<Longrightarrow> discarded (step s ev) = discarded s"
  by (cases ev)
     (auto simp: Submit_def whenFull_def Stop_def workerStep_def settle_def
        split: Worker.splits list.splits option.splits FullPolicy.splits)

lemma exec_gentle:
  "EvStop False \<notin> set evs \<Longrightarrow> discarded (exec evs s) = discarded s"
proof (induction evs arbitrary: s)
  case Nil
  then show ?case by (simp add: exec_Nil)
next
  case (Cons ev evs)
  then have "ev \<noteq> EvStop False" and "EvStop False \<notin> set evs" by auto
  with Cons.IH [of "step s ev"] show ?case by (simp add: exec_Cons step_gentle)
qed

lemma NewPool_discarded: "NewPool wc qc pol = Inr p \<Longrightarrow> discarded p = []"
  by (auto simp: NewPool_def split: if_splits)

lemma Stopped_final_step:
  assumes "pool_inv s" and "state s = Stopped"
  shows "step s ev = s"
proof (cases ev)
  case (EvSubmit t)
  with assms show ?thesis by (simp add: Submit_def)
next
  case (EvStop g)
  with assms show ?thesis by (simp add: Stop_def)
next
  case (EvWorker i)
  show ?thesis
  proof (cases "length (workers s) \<le> i")
    case True
    with EvWorker show ?thesis by (simp add: workerStep_def)
  next
    case False
    with assms have "workers s ! i = Exited" by (simp add: pool_inv_def all_Exited_nth)
    with False EvWorker show ?thesis by (simp add: workerStep_def)
  qed
next
  case EvSettle
  with assms show ?thesis by (simp add: settle_def)
qed

lemma Stopped_final: "pool_inv s \<Longrightarrow> state s = Stopped \<Longrightarrow> exec evs s = s"
  by (induction evs) (simp_all add: exec_Nil exec_Cons Stopped_final_step)

lemma step_workerCount: "workerCount (step s ev) = workerCount s"
  by (cases ev)
     (auto simp: Submit_def whenFull_def Stop_def workerStep_def settle_def
        split: Worker.splits list.splits option.splits FullPolicy.splits)

lemma exec_workerCount: "workerCount (exec evs s) = workerCount s"
  by (induction evs arbitrary: s) (simp_all add: exec_Nil exec_Cons step_workerCount)

lemma NewPool_workerCount:
  "NewPool wc qc pol = Inr p \<Longrightarrow>
   workerCount p = nat wc \<and> 1 \<le> wc \<and> 0 \<le> qc \<and> capacity p = nat qc"
  by (auto simp: NewPool_def split: if_splits)

lemma Stop_closes: "state (Stop g s) \<noteq> Running"
  by (simp add: Stop_def)

lemma reach_inv: "NewPool wc qc pol = Inr p0 \<Longrightarrow> pool_inv (exec evs p0)"
  by (simp add: NewPool_inv exec_inv)

lemma reach_accepted: "NewPool wc qc pol = Inr p0 \<Longrightarrow> accepted (exec evs p0) = okSubmits evs p0"
  by (simp add: accepted_exec NewPool_accepted)


















subsection \<open>Shutdown\<close>

lemma Stopped_drained: "pool_inv s \<Longrightarrow> state s = Stopped \<Longrightarrow> drained s"
  by (simp add: pool_inv_def drained_def running_all_Exited)

lemma StopReturn_Stopped: "StopReturn b s = Some StopStopped \<longleftrightarrow> state s = Stopped"
  by (simp add: StopReturn_def)

lemma after_Stop:
  "state (exec (pre @ EvStop g # post) p0) \<noteq> Running \<and>
   discarded (exec (pre @ EvStop g # post) p0) = discarded (Stop g (exec pre p0)) \<and>
   accepted (exec (pre @ EvStop g # post) p0) = accepted (exec pre p0)"
proof -
  let ?s = "Stop g (exec pre p0)"
  have c: "state ?s \<noteq> Running" by (rule Stop_closes)
  have "exec (pre @ EvStop g # post) p0 = exec post ?s" by (simp add: exec_append exec_Cons)
  with exec_closed [OF c, of post] accepted_exec [of post ?s] okSubmits_closed [OF c, of post]
  show ?thesis by (simp add: accepted_others)
qed

text \<open>
  C4, as stated, on a pool with one worker and capacity 1: a task is accepted, an
  immediate stop discards it, and a graceful stop called after that finds the shutdown
  under way and returns \<open>Stopped\<close> once the worker has exited. The task was accepted
  before that call and never ran.
\<close>

theorem graceful_after_immediate_stop:
  "NewPool 1 1 Block = Inr pool1 \<and> okSubmits [EvSubmit task2] pool1 = [task2] \<and>
   StopReturn False (exec evs4 pool1) = Some StopStopped \<and>
   fst (Stats (exec evs4 pool1)) = 0 \<and> executed (exec evs4 pool1) = []"
  by (simp add: NewPool_def pool1_def okSubmits_def Submit_def StopReturn_def exec_def evs4_def
        Stop_def workerStep_def settle_def Stats_def)

text \<open>
  C4, amended: when \<open>Stop(graceful=true)\<close> returns successfully and no immediate stop
  was called before it, every task \<open>Submit\<close> accepted before the call has executed
  (exactly as often as it was accepted, and nothing else has), and the pending count of
  \<open>Stats()\<close> is 0 at that moment.
\<close>

theorem graceful_stop_drains:
  assumes "NewPool wc qc pol = Inr p0" and "EvStop False \<notin> set pre"
    and "StopReturn timedOut (exec (pre @ EvStop True # post) p0) = Some StopStopped"
  shows "mset (executed (exec (pre @ EvStop True # post) p0)) = mset (okSubmits pre p0) \<and>
         fst (Stats (exec (pre @ EvStop True # post) p0)) = 0"
proof -
  let ?s = "exec (pre @ EvStop True # post) p0"
  have inv: "pool_inv ?s" using assms(1) by (rule reach_inv)
  have stopped: "state ?s = Stopped" using assms(3) by (simp add: StopReturn_Stopped)
  have "discarded (exec pre p0) = []"
    using assms(1,2) by (simp add: exec_gentle NewPool_discarded)
  then have dis: "discarded ?s = []"
    using after_Stop [of pre True post p0] by (simp add: Stop_def)
  have acc: "accepted ?s = okSubmits pre p0"
    using after_Stop [of pre True post p0] assms(1) by (simp add: reach_accepted)
  from Stopped_drained [OF inv stopped]
  have empty: "items ?s = []" and idle: "running (workers ?s) = []"
    by (simp_all add: drained_def)
  from inv empty idle dis acc show ?thesis by (simp add: pool_inv_def Stats_def)
qed

theorem graceful_stop_drains_witness:
  "NewPool 1 1 Block = Inr pool1 \<and> EvStop False \<notin> set [EvSubmit task1, EvSubmit task2] \<and>
   StopReturn False (exec ([EvSubmit task1, EvSubmit task2] @ EvStop True # evs5) pool1) =
     Some StopStopped \<and>
   mset (executed (exec ([EvSubmit task1, EvSubmit task2] @ EvStop True # evs5) pool1)) =
     mset (okSubmits [EvSubmit task1, EvSubmit task2] pool1) \<and>
   okSubmits [EvSubmit task1, EvSubmit task2] pool1 = [task1] \<and>
   fst (Stats (exec ([EvSubmit task1, EvSubmit task2] @ EvStop True # evs5) pool1)) = 0"
proof -
  have a: "NewPool 1 1 Block = Inr pool1" by (simp add: NewPool_def pool1_def)
  have b: "EvStop False \<notin> set [EvSubmit task1, EvSubmit task2]" by simp
  have c: "StopReturn False (exec ([EvSubmit task1, EvSubmit task2] @ EvStop True # evs5) pool1) =
     Some StopStopped"
    by (simp add: pool1_def Submit_def StopReturn_def exec_def evs5_def whenFull_def
        Stop_def workerStep_def settle_def)
  have d: "okSubmits [EvSubmit task1, EvSubmit task2] pool1 = [task1]"
    by (simp add: okSubmits_def pool1_def Submit_def whenFull_def)
  show ?thesis using graceful_stop_drains [OF a b c] a b c d by simp
qed

text \<open>
  C5: after \<open>Stop(graceful=false)\<close> has been called, whatever happens next, \<open>Submit\<close>
  answers \<open>PoolClosed\<close> and leaves the pool as it is; every \<open>Submit\<close> of the history
  after the stop was answered \<open>PoolClosed\<close>, none was accepted, and whatever has been
  executed was accepted before the stop.
\<close>

theorem Submit_after_immediate_Stop:
  assumes "NewPool wc qc pol = Inr p0"
  shows "Submit t (exec (pre @ EvStop False # post) p0) =
           (Some PoolClosed, exec (pre @ EvStop False # post) p0) \<and>
         list_all (\<lambda>a. snd a = Some PoolClosed) (answers post (exec (pre @ [EvStop False]) p0)) \<and>
         okSubmits post (exec (pre @ [EvStop False]) p0) = [] \<and>
         mset (executed (exec (pre @ EvStop False # post) p0)) \<subseteq># mset (okSubmits pre p0)"
proof -
  let ?s = "exec (pre @ EvStop False # post) p0"
  let ?s1 = "exec (pre @ [EvStop False]) p0"
  have closed: "state ?s \<noteq> Running" using after_Stop [of pre False post p0] by simp
  have c1: "state ?s1 \<noteq> Running" by (simp add: exec_append exec_Cons exec_Nil Stop_closes)
  have inv: "pool_inv ?s" using assms by (rule reach_inv)
  have acc: "accepted ?s = okSubmits pre p0"
    using after_Stop [of pre False post p0] assms by (simp add: reach_accepted)
  have "mset (executed ?s) \<subseteq># mset (started ?s)" using inv by (simp add: pool_inv_def)
  also have "\<dots> \<subseteq># mset (accepted ?s)" using inv by (simp add: pool_inv_def)
  finally have ex: "mset (executed ?s) \<subseteq># mset (okSubmits pre p0)" using acc by simp
  from closed have "Submit t ?s = (Some PoolClosed, ?s)" by (simp add: Submit_def)
  with answers_closed [OF c1, of post] okSubmits_closed [OF c1, of post] ex
  show ?thesis by simp
qed

theorem Submit_after_immediate_Stop_witness:
  "NewPool 1 1 Block = Inr pool1 \<and>
   fst (Submit task2 (exec ([EvSubmit task1] @ EvStop False # [EvSubmit task2, EvWorker 0]) pool1))
     = Some PoolClosed \<and>
   answers [EvSubmit task2, EvWorker 0] (exec ([EvSubmit task1] @ [EvStop False]) pool1) =
     [(task2, Some PoolClosed)] \<and>
   executed (exec ([EvSubmit task1] @ EvStop False # [EvSubmit task2, EvWorker 0]) pool1) = []"
proof -
  have a: "NewPool 1 1 Block = Inr pool1" by (simp add: NewPool_def pool1_def)
  have b: "answers [EvSubmit task2, EvWorker 0] (exec ([EvSubmit task1] @ [EvStop False]) pool1) =
     [(task2, Some PoolClosed)]"
    by (simp add: exec_def pool1_def Submit_def Stop_def)
  have c: "executed (exec ([EvSubmit task1] @ EvStop False # [EvSubmit task2, EvWorker 0]) pool1) = []"
    by (simp add: exec_def pool1_def Submit_def Stop_def workerStep_def)
  show ?thesis
    using Submit_after_immediate_Stop [OF a, of task2 "[EvSubmit task1]" "[EvSubmit task2, EvWorker 0]"]
      a b c by simp
qed

text \<open>
  C6: in every state a history reaches from a new pool, \<open>active\<close> is at most
  \<open>workerCount\<close>, which \<open>Stats()\<close> reports as constructed; and once the state is
  Stopped, no later event changes that: the list of begun tasks stays as it is, the
  queue stays empty and no worker executes.
\<close>

theorem active_le_workerCount:
  assumes "NewPool wc qc pol = Inr p0"
  shows "active (exec evs p0) \<le> workerCount (exec evs p0) \<and>
         Stats (exec evs p0) = (length (items (exec evs p0)), active (exec evs p0), nat wc) \<and>
         (state (exec evs p0) = Stopped \<longrightarrow>
            state (exec (evs @ later) p0) = Stopped \<and>
            started (exec (evs @ later) p0) = started (exec evs p0) \<and>
            items (exec (evs @ later) p0) = [] \<and>
            active (exec (evs @ later) p0) = 0)"
proof -
  let ?s = "exec evs p0"
  have inv: "pool_inv ?s" using assms by (rule reach_inv)
  then have "length (workers ?s) = workerCount ?s" by (simp add: pool_inv_def)
  with length_running_le [of "workers ?s"] have le: "active ?s \<le> workerCount ?s"
    by (simp add: active_def)
  have wc: "workerCount ?s = nat wc"
    using assms by (simp add: exec_workerCount NewPool_workerCount)
  have fin: "state (exec (evs @ later) p0) = Stopped \<and>
            started (exec (evs @ later) p0) = started ?s \<and>
            items (exec (evs @ later) p0) = [] \<and> active (exec (evs @ later) p0) = 0"
    if st: "state ?s = Stopped"
  proof -
    have same: "exec (evs @ later) p0 = ?s"
      using Stopped_final [OF inv st, of later] by (simp add: exec_append)
    from Stopped_drained [OF inv st] have "items ?s = []" "active ?s = 0"
      by (simp_all add: drained_def active_def)
    with same st show ?thesis by simp
  qed
  from le wc fin show ?thesis by (simp add: Stats_def)
qed

theorem active_le_workerCount_witness:
  "NewPool 1 1 Block = Inr pool1 \<and>
   active (exec [EvSubmit task1, EvWorker 0] pool1) = 1 \<and>
   workerCount (exec [EvSubmit task1, EvWorker 0] pool1) = 1 \<and>
   state (exec evs4 pool1) = Stopped \<and>
   state (exec (evs4 @ [EvSubmit task1, EvWorker 0]) pool1) = Stopped \<and>
   started (exec (evs4 @ [EvSubmit task1, EvWorker 0]) pool1) = started (exec evs4 pool1) \<and>
   active (exec (evs4 @ [EvSubmit task1, EvWorker 0]) pool1) = 0"
proof -
  have a: "NewPool 1 1 Block = Inr pool1" by (simp add: NewPool_def pool1_def)
  have b: "state (exec evs4 pool1) = Stopped"
    by (simp add: pool1_def Submit_def exec_def evs4_def Stop_def workerStep_def settle_def)
  have c: "active (exec [EvSubmit task1, EvWorker 0] pool1) = 1"
    by (simp add: pool1_def Submit_def exec_def workerStep_def active_def)
  show ?thesis
    using active_le_workerCount [OF a, of "[EvSubmit task1, EvWorker 0]" "[]"]
      active_le_workerCount [OF a, of evs4 "[EvSubmit task1, EvWorker 0]"] a b c
    by (simp add: Stats_def)
qed

text \<open>
  C7: once \<open>Stop\<close> has been called, a further call of \<open>Stop\<close>, in either mode and after
  any events, leaves the pool unchanged and its caller is answered as the pool's state
  has it: exactly one drain has been begun, no history begins more than one, and once
  the pool is Stopped every later \<open>Stop\<close> returns \<open>Stopped\<close>.
\<close>

theorem Stop_idempotent:
  assumes "NewPool wc qc pol = Inr p0"
  shows "Stop g' (exec (pre @ EvStop g # mid) p0) = exec (pre @ EvStop g # mid) p0 \<and>
         StopReturn b (Stop g' (exec (pre @ EvStop g # mid) p0)) =
           StopReturn b (exec (pre @ EvStop g # mid) p0) \<and>
         drains (exec (pre @ EvStop g # mid) p0) = 1 \<and>
         drains (exec evs p0) \<le> 1 \<and>
         (state (exec evs p0) = Stopped \<longrightarrow>
            StopReturn b (exec (evs @ EvStop g' # later) p0) = Some StopStopped)"
proof -
  let ?s = "exec (pre @ EvStop g # mid) p0"
  have closed: "state ?s \<noteq> Running" using after_Stop [of pre g mid p0] by simp
  then have same: "Stop g' ?s = ?s" by (simp add: Stop_def)
  have "pool_inv ?s" using assms by (rule reach_inv)
  with closed have one: "drains ?s = 1" by (simp add: pool_inv_def)
  have inv: "pool_inv (exec evs p0)" using assms by (rule reach_inv)
  then have le: "drains (exec evs p0) \<le> 1" by (cases "state (exec evs p0) = Running") (simp_all add: pool_inv_def)
  have fin: "StopReturn b (exec (evs @ EvStop g' # later) p0) = Some StopStopped"
    if st: "state (exec evs p0) = Stopped"
    using Stopped_final [OF inv st, of "EvStop g' # later"] st
    by (simp add: exec_append StopReturn_def)
  from same one le fin show ?thesis by simp
qed

theorem Stop_idempotent_witness:
  "NewPool 1 1 Block = Inr pool1 \<and>
   Stop False (exec ([EvSubmit task1] @ EvStop True # [EvWorker 0]) pool1) =
     exec ([EvSubmit task1] @ EvStop True # [EvWorker 0]) pool1 \<and>
   drains (exec ([EvSubmit task1] @ EvStop True # [EvWorker 0]) pool1) = 1 \<and>
   state (exec evs4 pool1) = Stopped \<and>
   StopReturn True (exec (evs4 @ EvStop False # []) pool1) = Some StopStopped"
proof -
  have a: "NewPool 1 1 Block = Inr pool1" by (simp add: NewPool_def pool1_def)
  have b: "state (exec evs4 pool1) = Stopped"
    by (simp add: pool1_def Submit_def exec_def evs4_def Stop_def workerStep_def settle_def)
  show ?thesis
    using Stop_idempotent [OF a, of False "[EvSubmit task1]" True "[EvWorker 0]" True evs4 "[]"] a b
    by simp
qed

end
